theory Spec2Isabelle
  imports Main "HOL-Library.Word"
begin

section \<open>Winner draw of the dashboard (handleGetWinners)\<close>

text \<open>
  Modelled from the spec: the generated type sqlc.Users is not among the source files.
  Its fields are the columns of the users table (migration and queries of the store)
  and the repeat-weight n of the registrant record; n is an int32 (UpdateUserNParams
  takes int32(n)). The handler works on pointers to such rows; a pointer is
  identified here with the row it points to, whose ID is the primary key.
\<close>

record Users =
  ID :: "64 word"
  Name :: string
  Username :: string
  TgID :: "64 word"
  EventID :: "64 word"
  N :: "32 word"

text \<open>
  Lines 643 to 651: for every index i below the original length, a row whose N is
  greater than 1 is appended N - 1 more times at the end of the slice. The comparison
  and the subtraction are those of a signed 32-bit integer; the inner loop appends the
  same users[i] on each of its N - 1 rounds.
\<close>

definition copies :: "32 word \<Rightarrow> nat" where
  "copies n = (if 1 < sint n then nat (sint n - 1) else 0)"

definition expand_step :: "nat \<Rightarrow> Users list \<Rightarrow> Users list" where
  "expand_step i users = users @ replicate (copies (Users.N (users ! i))) (users ! i)"

definition expand_users :: "Users list \<Rightarrow> Users list" where
  "expand_users users = fold expand_step [0 ..< length users] users"

text \<open>
  Lines 653 to 657: winnersCount is count, lowered to the length of the expanded slice
  when it is larger. count is a Go int; every Go int is an \<^typ>\<open>int\<close>.
\<close>

definition winnersCount :: "int \<Rightarrow> Users list \<Rightarrow> int" where
  "winnersCount count users = (if count > int (length users) then int (length users) else count)"

text \<open>
  rand.IntN(n) panics when n is not positive and otherwise returns a value below n.
  The process-wide random source is a stream of raw values, one for each call; reducing a
  raw value modulo n reaches every value that rand.IntN(n) can return.
\<close>

definition rand_IntN :: "nat \<Rightarrow> nat \<Rightarrow> nat option" where
  "rand_IntN raw n = (if n = 0 then None else Some (raw mod n))"

text \<open>
  Lines 660 to 672, the selection loop: stop when i reaches winnersCount or the pool is
  empty; otherwise draw an index, append users[index] to the winners and cut that one
  slot out of the pool. A panic of the draw or of the indexing is the result None.
\<close>

function select_loop ::
  "(nat \<Rightarrow> nat) \<Rightarrow> int \<Rightarrow> int \<Rightarrow> Users list \<Rightarrow> Users list \<Rightarrow>
   Users list option" where
  "select_loop rnd i wc users winners =
     (if i < wc then
        (if length users = 0 then Some winners
         else (case rand_IntN (rnd 0) (length users) of
                 None \<Rightarrow> None
               | Some index \<Rightarrow>
                   (if index < length users then
                      select_loop (\<lambda>k. rnd (Suc k)) (i + 1) wc
                        (take index users @ drop (index + 1) users)
                        (winners @ [users ! index])
                    else None)))
      else Some winners)"
  by pat_completeness auto
termination
  by (relation "measure (\<lambda>(rnd, i, wc, users, winners). nat (wc - i))") auto

text \<open>
  The draw of handleGetWinners from the roster returned by the store and the parsed count
  to the winners handed to the template (lines 633 to 672).
\<close>

definition handleGetWinners ::
  "(nat \<Rightarrow> nat) \<Rightarrow> Users list \<Rightarrow> int \<Rightarrow> Users list option" where
  "handleGetWinners rnd roster count =
     (let users = expand_users roster
      in select_loop rnd 0 (winnersCount count users) users [])"

text \<open>
  Two registrants of one event, for evaluating the draw: A with weight 1 and B with weight 3.
\<close>

definition registrant_A :: Users where
  "registrant_A =
     \<lparr>Users.ID = 1, Users.Name = ''A'', Users.Username = ''a'', Users.TgID = 101,
      Users.EventID = 1, N = 1\<rparr>"

definition registrant_B :: Users where
  "registrant_B =
     \<lparr>Users.ID = 2, Users.Name = ''B'', Users.Username = ''b'', Users.TgID = 102,
      Users.EventID = 1, N = 3\<rparr>"

section \<open>Registration bot (package telegram)\<close>

definition REGISTERED_ERROR :: string where
  \<comment> \<open>line 16; the constraint name stands between two quotation marks (byte 0x22)\<close>
  "REGISTERED_ERROR =
     ''pq: duplicate key value violates unique constraint '' @
     [CHR 0x22] @ ''unique_tg_event_id'' @ [CHR 0x22]"

text \<open>
  Lines 18 to 25: State is an int64 whose named values are numbered by iota from 1, the
  value 0 being skipped. Only the three named values are ever returned by getState or
  stored by setState.
\<close>

datatype State = Started | WaitingForName | Done

fun State_int64 :: "State \<Rightarrow> int" where
  "State_int64 Started = 1"
| "State_int64 WaitingForName = 2"
| "State_int64 Done = 3"

record StateKey =
  ChatID :: "64 word"
  EventID :: "64 word"

text \<open>
  Modelled from the spec: the update and message types of the chat transport
  (tgbotapi.Update, Message, MessageConfig) and the generated sqlc.CreateUserParams and
  sqlc.Events are not among the source files. An update carries at most one message; a
  message carries the chat id, the sender's id and handle, and the text. An outgoing
  message is a chat id, a text and a parse mode.
\<close>

record Message =
  Chat_ID :: "64 word"
  From_ID :: "64 word"
  From_UserName :: string
  Text :: string

record Update =
  Message :: "Message option"

record MessageConfig =
  ChatID :: "64 word"
  Text :: string
  ParseMode :: string

definition ModeMarkdown :: string where
  "ModeMarkdown = ''Markdown''"

record CreateUserParams =
  TgID :: "64 word"
  Name :: string
  Username :: string
  EventID :: "64 word"

record Events =
  ID :: "64 word"
  Name :: string

text \<open>
  What one call of processUpdate reads from outside the service: the active-event pointer
  (config.GetCurrentEventID, read as one value during the call) and the answer of the store
  to CreateUser, of which the code only uses the error: None is a nil error, Some text is an
  error whose Error() is that text.
\<close>

record Env =
  GetCurrentEventID :: "64 word"
  CreateUser :: "CreateUserParams \<Rightarrow> string option"

text \<open>
  Lines 32 to 39. The map state is the stage map. The two handles are modelled by what goes
  through them: bot is the list of messages handed to bot.Send, queries the list of
  CreateUser calls issued to the store, both oldest first.
\<close>

record Service =
  welcomeMessage :: string
  state :: "StateKey \<rightharpoonup> State"
  bot :: "MessageConfig list"
  queries :: "CreateUserParams list"

definition welcome_prefix :: string where
  \<comment> \<open>the format string of line 64 up to its verb %s: "Pryvit! Ya bot dlya reyestratsiyi
      na ivent FITKI" and an opening quotation mark\<close>
  "welcome_prefix =
    [CHR 0xD0, CHR 0x9F, CHR 0xD1, CHR 0x80, CHR 0xD0, CHR 0xB8, CHR 0xD0, CHR 0xB2,
     CHR 0xD1, CHR 0x96, CHR 0xD1, CHR 0x82, CHR 0x21, CHR 0x20, CHR 0xD0, CHR 0xAF,
     CHR 0x20, CHR 0xD0, CHR 0xB1, CHR 0xD0, CHR 0xBE, CHR 0xD1, CHR 0x82, CHR 0x20,
     CHR 0xD0, CHR 0xB4, CHR 0xD0, CHR 0xBB, CHR 0xD1, CHR 0x8F, CHR 0x20, CHR 0xD1,
     CHR 0x80, CHR 0xD0, CHR 0xB5, CHR 0xD1, CHR 0x94, CHR 0xD1, CHR 0x81, CHR 0xD1,
     CHR 0x82, CHR 0xD1, CHR 0x80, CHR 0xD0, CHR 0xB0, CHR 0xD1, CHR 0x86, CHR 0xD1,
     CHR 0x96, CHR 0xD1, CHR 0x97, CHR 0x20, CHR 0xD0, CHR 0xBD, CHR 0xD0, CHR 0xB0,
     CHR 0x20, CHR 0xD1, CHR 0x96, CHR 0xD0, CHR 0xB2, CHR 0xD0, CHR 0xB5, CHR 0xD0,
     CHR 0xBD, CHR 0xD1, CHR 0x82, CHR 0x20, CHR 0xD0, CHR 0xA4, CHR 0xD0, CHR 0x86,
     CHR 0xD0, CHR 0xA2, CHR 0xD0, CHR 0x9A, CHR 0xD0, CHR 0x86, CHR 0x20, CHR 0x22]"

definition welcome_suffix :: string where
  \<comment> \<open>the format string after the verb: a closing quotation mark, a full stop, two line
      feeds and "Vvedy svoye prizvyshche ta im'ya, shchob zareyestruvatysya."\<close>
  "welcome_suffix =
    [CHR 0x22, CHR 0x2E, CHR 0x0A, CHR 0x0A, CHR 0xD0, CHR 0x92, CHR 0xD0, CHR 0xB2,
     CHR 0xD0, CHR 0xB5, CHR 0xD0, CHR 0xB4, CHR 0xD0, CHR 0xB8, CHR 0x20, CHR 0xD1,
     CHR 0x81, CHR 0xD0, CHR 0xB2, CHR 0xD0, CHR 0xBE, CHR 0xD1, CHR 0x94, CHR 0x20,
     CHR 0xD0, CHR 0xBF, CHR 0xD1, CHR 0x80, CHR 0xD1, CHR 0x96, CHR 0xD0, CHR 0xB7,
     CHR 0xD0, CHR 0xB2, CHR 0xD0, CHR 0xB8, CHR 0xD1, CHR 0x89, CHR 0xD0, CHR 0xB5,
     CHR 0x20, CHR 0xD1, CHR 0x82, CHR 0xD0, CHR 0xB0, CHR 0x20, CHR 0xD1, CHR 0x96,
     CHR 0xD0, CHR 0xBC, CHR 0x27, CHR 0xD1, CHR 0x8F, CHR 0x2C, CHR 0x20, CHR 0xD1,
     CHR 0x89, CHR 0xD0, CHR 0xBE, CHR 0xD0, CHR 0xB1, CHR 0x20, CHR 0xD0, CHR 0xB7,
     CHR 0xD0, CHR 0xB0, CHR 0xD1, CHR 0x80, CHR 0xD0, CHR 0xB5, CHR 0xD1, CHR 0x94,
     CHR 0xD1, CHR 0x81, CHR 0xD1, CHR 0x82, CHR 0xD1, CHR 0x80, CHR 0xD1, CHR 0x83,
     CHR 0xD0, CHR 0xB2, CHR 0xD0, CHR 0xB0, CHR 0xD1, CHR 0x82, CHR 0xD0, CHR 0xB8,
     CHR 0xD1, CHR 0x81, CHR 0xD1, CHR 0x8F, CHR 0x2E]"

definition msg_waiting :: string where
  \<comment> \<open>line 100, "Vzhe chekayu na tvoye im'ya!": already waiting for your name\<close>
  "msg_waiting =
    [CHR 0xD0, CHR 0x92, CHR 0xD0, CHR 0xB6, CHR 0xD0, CHR 0xB5, CHR 0x20, CHR 0xD1,
     CHR 0x87, CHR 0xD0, CHR 0xB5, CHR 0xD0, CHR 0xBA, CHR 0xD0, CHR 0xB0, CHR 0xD1,
     CHR 0x8E, CHR 0x20, CHR 0xD0, CHR 0xBD, CHR 0xD0, CHR 0xB0, CHR 0x20, CHR 0xD1,
     CHR 0x82, CHR 0xD0, CHR 0xB2, CHR 0xD0, CHR 0xBE, CHR 0xD1, CHR 0x94, CHR 0x20,
     CHR 0xD1, CHR 0x96, CHR 0xD0, CHR 0xBC, CHR 0x27, CHR 0xD1, CHR 0x8F, CHR 0x21]"

definition msg_registered :: string where
  \<comment> \<open>lines 110 and 121, "Ty vzhe zareyestrovanyy!": you are already registered\<close>
  "msg_registered =
    [CHR 0xD0, CHR 0xA2, CHR 0xD0, CHR 0xB8, CHR 0x20, CHR 0xD0, CHR 0xB2, CHR 0xD0,
     CHR 0xB6, CHR 0xD0, CHR 0xB5, CHR 0x20, CHR 0xD0, CHR 0xB7, CHR 0xD0, CHR 0xB0,
     CHR 0xD1, CHR 0x80, CHR 0xD0, CHR 0xB5, CHR 0xD1, CHR 0x94, CHR 0xD1, CHR 0x81,
     CHR 0xD1, CHR 0x82, CHR 0xD1, CHR 0x80, CHR 0xD0, CHR 0xBE, CHR 0xD0, CHR 0xB2,
     CHR 0xD0, CHR 0xB0, CHR 0xD0, CHR 0xBD, CHR 0xD0, CHR 0xB8, CHR 0xD0, CHR 0xB9,
     CHR 0x21]"

definition msg_error :: string where
  \<comment> \<open>line 112, "Stalasya pomylka. Sprobuy shche raz.": an error occurred, try once more\<close>
  "msg_error =
    [CHR 0xD0, CHR 0xA1, CHR 0xD1, CHR 0x82, CHR 0xD0, CHR 0xB0, CHR 0xD0, CHR 0xBB,
     CHR 0xD0, CHR 0xB0, CHR 0xD1, CHR 0x81, CHR 0xD1, CHR 0x8F, CHR 0x20, CHR 0xD0,
     CHR 0xBF, CHR 0xD0, CHR 0xBE, CHR 0xD0, CHR 0xBC, CHR 0xD0, CHR 0xB8, CHR 0xD0,
     CHR 0xBB, CHR 0xD0, CHR 0xBA, CHR 0xD0, CHR 0xB0, CHR 0x2E, CHR 0x20, CHR 0xD0,
     CHR 0xA1, CHR 0xD0, CHR 0xBF, CHR 0xD1, CHR 0x80, CHR 0xD0, CHR 0xBE, CHR 0xD0,
     CHR 0xB1, CHR 0xD1, CHR 0x83, CHR 0xD0, CHR 0xB9, CHR 0x20, CHR 0xD1, CHR 0x89,
     CHR 0xD0, CHR 0xB5, CHR 0x20, CHR 0xD1, CHR 0x80, CHR 0xD0, CHR 0xB0, CHR 0xD0,
     CHR 0xB7, CHR 0x2E]"

definition msg_thanks :: string where
  \<comment> \<open>line 115, "Dyakuyu! Ty uspishno zareyestrovanyy.": thank you, you are registered\<close>
  "msg_thanks =
    [CHR 0xD0, CHR 0x94, CHR 0xD1, CHR 0x8F, CHR 0xD0, CHR 0xBA, CHR 0xD1, CHR 0x83,
     CHR 0xD1, CHR 0x8E, CHR 0x21, CHR 0x20, CHR 0xD0, CHR 0xA2, CHR 0xD0, CHR 0xB8,
     CHR 0x20, CHR 0xD1, CHR 0x83, CHR 0xD1, CHR 0x81, CHR 0xD0, CHR 0xBF, CHR 0xD1,
     CHR 0x96, CHR 0xD1, CHR 0x88, CHR 0xD0, CHR 0xBD, CHR 0xD0, CHR 0xBE, CHR 0x20,
     CHR 0xD0, CHR 0xB7, CHR 0xD0, CHR 0xB0, CHR 0xD1, CHR 0x80, CHR 0xD0, CHR 0xB5,
     CHR 0xD1, CHR 0x94, CHR 0xD1, CHR 0x81, CHR 0xD1, CHR 0x82, CHR 0xD1, CHR 0x80,
     CHR 0xD0, CHR 0xBE, CHR 0xD0, CHR 0xB2, CHR 0xD0, CHR 0xB0, CHR 0xD0, CHR 0xBD,
     CHR 0xD0, CHR 0xB8, CHR 0xD0, CHR 0xB9, CHR 0x2E]"

definition welcomeText :: "string \<Rightarrow> string" where
  \<comment> \<open>fmt.Sprintf of line 64 on the event's name\<close>
  "welcomeText name = welcome_prefix @ name @ welcome_suffix"

definition Start :: "Events \<Rightarrow> Service" where
  \<comment> \<open>lines 52 to 64: the service as it is handed to run, for the event found by
      GetEventByID\<close>
  "Start event =
     \<lparr>welcomeMessage = welcomeText (Events.Name event), state = Map.empty, bot = [],
      queries = []\<rparr>"

definition stage_of :: "Service \<Rightarrow> StateKey \<Rightarrow> State" where
  \<comment> \<open>lines 139 to 143: the stored stage, Started when the key is absent\<close>
  "stage_of s key = (case state s key of Some st \<Rightarrow> st | None \<Rightarrow> Started)"

definition getState :: "Env \<Rightarrow> Service \<Rightarrow> 64 word \<Rightarrow> State" where
  "getState env s chatID =
     stage_of s \<lparr>StateKey.ChatID = chatID, StateKey.EventID = GetCurrentEventID env\<rparr>"

definition setState :: "Env \<Rightarrow> 64 word \<Rightarrow> State \<Rightarrow> Service \<Rightarrow> Service" where
  "setState env chatID st s =
     s\<lparr>state :=
         (state s)(\<lparr>StateKey.ChatID = chatID, StateKey.EventID = GetCurrentEventID env\<rparr> \<mapsto> st)\<rparr>"

definition NewMessage :: "64 word \<Rightarrow> string \<Rightarrow> MessageConfig" where
  \<comment> \<open>tgbotapi.NewMessage followed by line 123, which sets the parse mode\<close>
  "NewMessage chatID text =
     \<lparr>MessageConfig.ChatID = chatID, MessageConfig.Text = text, ParseMode = ModeMarkdown\<rparr>"

definition Send :: "MessageConfig \<Rightarrow> Service \<Rightarrow> Service" where
  \<comment> \<open>lines 124 to 126; a failure of the transport is only logged\<close>
  "Send msg s = s\<lparr>bot := bot s @ [msg]\<rparr>"

definition params_of :: "Env \<Rightarrow> Message \<Rightarrow> CreateUserParams" where
  \<comment> \<open>lines 102 to 107\<close>
  "params_of env m =
     \<lparr>CreateUserParams.TgID = From_ID m, CreateUserParams.Name = Message.Text m,
      CreateUserParams.Username = From_UserName m,
      CreateUserParams.EventID = GetCurrentEventID env\<rparr>"

definition issue :: "CreateUserParams \<Rightarrow> Service \<Rightarrow> Service" where
  "issue p s = s\<lparr>queries := queries s @ [p]\<rparr>"

text \<open>
  Lines 83 to 128. The result of the switch is the text of the reply and the service after
  the stage writes of the branch taken. In the branch that calls the store, the stage write
  of line 116 belongs to the success case, and the stage write of line 118 follows the whole
  if statement of lines 102 to 117.
\<close>

definition processUpdate :: "Env \<Rightarrow> Update \<Rightarrow> Service \<Rightarrow> Service" where
  "processUpdate env update s =
     (case Message update of
        None \<Rightarrow> s
      | Some m \<Rightarrow>
          (let chat = Chat_ID m;
               (text, s') =
                 (case getState env s chat of
                    Started \<Rightarrow> (welcomeMessage s, setState env chat WaitingForName s)
                  | WaitingForName \<Rightarrow>
                      (if Message.Text m = ''/start'' then (msg_waiting, s)
                       else
                         (let (text, s1) =
                                (case CreateUser env (params_of env m) of
                                   Some err \<Rightarrow>
                                     (if err = REGISTERED_ERROR then msg_registered else msg_error,
                                      issue (params_of env m) s)
                                 | None \<Rightarrow>
                                     (msg_thanks,
                                      setState env chat Done (issue (params_of env m) s)))
                          in (text, setState env chat Done s1)))
                  | Done \<Rightarrow> (msg_registered, s))
           in Send (NewMessage chat text) s'))"

text \<open>
  Updates processed one after the other, each to completion, each with the environment it
  meets.
\<close>

fun process_in_turn :: "(Env \<times> Update) list \<Rightarrow> Service \<Rightarrow> Service" where
  "process_in_turn [] s = s"
| "process_in_turn ((env, update) # rest) s = process_in_turn rest (processUpdate env update s)"

subsection \<open>Concurrent processing of updates\<close>

text \<open>
  run starts one goroutine for each update (line 79). The goroutines share the stage map,
  and every access to it is one call of getState or setState, which holds the mutex of the
  service from its first to its last statement. A goroutine is therefore modelled as a
  sequence of atomic steps, each with at most one access to shared state, and a concurrent
  execution as an interleaving of such steps. Thread records where a goroutine stands and
  what it holds in its local variables.
\<close>

datatype Thread =
    At_entry Update               \<comment> \<open>line 83, nothing done yet\<close>
  | At_switch Message State       \<comment> \<open>line 94, holding the stage returned by getState\<close>
  | At_created Message "string option"  \<comment> \<open>line 107, holding the error of CreateUser\<close>
  | At_line118 Message string     \<comment> \<open>line 118, holding the text of the reply\<close>
  | At_send Message string        \<comment> \<open>line 123, holding the text of the reply\<close>
  | Returned

fun thread_step :: "Env \<Rightarrow> Thread \<Rightarrow> Service \<Rightarrow> Thread \<times> Service" where
  "thread_step env (At_entry update) s =
     (case Message update of
        None \<Rightarrow> (Returned, s)
      | Some m \<Rightarrow> (At_switch m (getState env s (Chat_ID m)), s))"
| "thread_step env (At_switch m Started) s =
     (At_send m (welcomeMessage s), setState env (Chat_ID m) WaitingForName s)"
| "thread_step env (At_switch m WaitingForName) s =
     (if Message.Text m = ''/start'' then (At_send m msg_waiting, s)
      else (At_created m (CreateUser env (params_of env m)), issue (params_of env m) s))"
| "thread_step env (At_switch m Done) s = (At_send m msg_registered, s)"
| "thread_step env (At_created m (Some err)) s =
     (At_line118 m (if err = REGISTERED_ERROR then msg_registered else msg_error), s)"
| "thread_step env (At_created m None) s =
     (At_line118 m msg_thanks, setState env (Chat_ID m) Done s)"
| "thread_step env (At_line118 m text) s = (At_send m text, setState env (Chat_ID m) Done s)"
| "thread_step env (At_send m text) s = (Returned, Send (NewMessage (Chat_ID m) text) s)"
| "thread_step env Returned s = (Returned, s)"

text \<open>
  A schedule names, step by step, the goroutine that moves next; every interleaving of the
  goroutines is the run of some schedule.
\<close>

fun interleave ::
  "Env \<Rightarrow> nat list \<Rightarrow> Thread list \<times> Service \<Rightarrow> Thread list \<times> Service" where
  "interleave env [] c = c"
| "interleave env (i # sched) (ts, s) =
     (if i < length ts
      then (let (t', s') = thread_step env (ts ! i) s in interleave env sched (ts[i := t'], s'))
      else interleave env sched (ts, s))"


subsection \<open>Inputs for evaluation\<close>

text \<open>
  Event 1, a store that accepts every insert, one that answers the duplicate-key error, one
  that is out of reach, a second event with the pointer moved to it, and two messages of
  chat 7: the restart command and a name.
\<close>

definition event0 :: Events where
  "event0 = \<lparr>Events.ID = 1, Events.Name = ''Quiz''\<rparr>"

definition env_ok :: Env where
  "env_ok = \<lparr>GetCurrentEventID = 1, CreateUser = (\<lambda>p. None)\<rparr>"

definition env_dup :: Env where
  "env_dup = \<lparr>GetCurrentEventID = 1, CreateUser = (\<lambda>p. Some REGISTERED_ERROR)\<rparr>"

definition env_down :: Env where
  "env_down = \<lparr>GetCurrentEventID = 1, CreateUser = (\<lambda>p. Some ''driver: bad connection'')\<rparr>"



definition msg_start :: Message where
  "msg_start = \<lparr>Chat_ID = 7, From_ID = 7, From_UserName = ''ivan'', Message.Text = ''/start''\<rparr>"

definition msg_name :: Message where
  "msg_name = \<lparr>Chat_ID = 7, From_ID = 7, From_UserName = ''ivan'', Message.Text = ''Ivan Franko''\<rparr>"

definition upd :: "Message \<Rightarrow> Update" where
  "upd m = \<lparr>Message = Some m\<rparr>"

definition key_of :: "Env \<Rightarrow> Message \<Rightarrow> StateKey" where
  "key_of env m = \<lparr>StateKey.ChatID = Chat_ID m, StateKey.EventID = GetCurrentEventID env\<rparr>"

definition svc_waiting :: Service where
  "svc_waiting = processUpdate env_ok (upd msg_start) (Start event0)"

definition svc_done :: Service where
  "svc_done = processUpdate env_ok (upd msg_name) svc_waiting"

definition key7 :: StateKey where
  "key7 = \<lparr>StateKey.ChatID = 7, StateKey.EventID = 1\<rparr>"

subsection \<open>An invariant of racing goroutines\<close>

text \<open>
  The configurations reachable once every goroutine of a group has observed Started on the
  key of chat c: a goroutine is at the switch with Started, or has written and is about to
  send the welcome prompt, or has returned.
\<close>

fun before_write :: "Thread \<Rightarrow> bool" where
  "before_write (At_switch m st) = True"
| "before_write t = False"

fun observed_Started :: "64 word \<Rightarrow> string \<Rightarrow> Thread \<Rightarrow> bool" where
  "observed_Started c w (At_switch m st) = (Chat_ID m = c \<and> st = Started)"
| "observed_Started c w (At_send m text) = (Chat_ID m = c \<and> text = w)"
| "observed_Started c w Returned = True"
| "observed_Started c w t = False"

definition race_inv ::
  "Env \<Rightarrow> 64 word \<Rightarrow> Service \<Rightarrow> Thread list \<times> Service \<Rightarrow> bool" where
  "race_inv env c s0 cfg =
     (let ts = fst cfg; s = snd cfg;
          key = \<lparr>StateKey.ChatID = c, StateKey.EventID = GetCurrentEventID env\<rparr>
      in list_all (observed_Started c (welcomeMessage s0)) ts \<and>
         welcomeMessage s = welcomeMessage s0 \<and>
         queries s = queries s0 \<and>
         state s = (if list_all before_write ts then state s0
                    else (state s0)(key \<mapsto> WaitingForName)) \<and>
         bot s = bot s0 @
           replicate (length (filter (\<lambda>t. t = Returned) ts)) (NewMessage c (welcomeMessage s0)))"

section \<open>Properties of the winner draw\<close>

declare select_loop.simps [simp del]

subsection \<open>The expanded pool\<close>

lemma fold_expand_step:
  "n \<le> length base \<Longrightarrow>
   fold expand_step [0 ..< n] (base @ extra) =
     base @ extra @ concat (map (\<lambda>u. replicate (copies (N u)) u) (take n base))"
proof (induction n arbitrary: extra)
  case 0
  show ?case by simp
next
  case (Suc n)
  then have n: "n < length base" by simp
  have "fold expand_step [0 ..< Suc n] (base @ extra) =
        expand_step n (fold expand_step [0 ..< n] (base @ extra))"
    by simp
  also have "\<dots> = expand_step n
      (base @ extra @ concat (map (\<lambda>u. replicate (copies (N u)) u) (take n base)))"
    using Suc.IH [of extra] n by simp
  also have "\<dots> = base @ extra @
      concat (map (\<lambda>u. replicate (copies (N u)) u) (take (Suc n) base))"
    using n by (simp add: expand_step_def nth_append take_Suc_conv_app_nth)
  finally show ?case .
qed

lemma expand_users_eq:
  "expand_users roster = roster @ concat (map (\<lambda>u. replicate (copies (N u)) u) roster)"
  using fold_expand_step [of "length roster" roster "[]"]
  by (simp add: expand_users_def)

lemma set_expand_users: "set (expand_users roster) = set roster"
  by (auto simp: expand_users_eq)

lemma expand_users_Nil: "expand_users [] = []"
  by (simp add: expand_users_eq)

subsection \<open>The selection loop\<close>

lemma select_loop_returns:
  "\<exists>ws. select_loop rnd i wc users winners = Some ws"
proof (induction rnd i wc users winners rule: select_loop.induct)
  case (1 rnd i wc users winners)
  show ?case
  proof (cases "i < wc \<and> length users \<noteq> 0")
    case False
    then show ?thesis by (auto simp: select_loop.simps [of rnd i wc users winners])
  next
    case True
    define index where "index = rnd 0 mod length users"
    have r: "rand_IntN (rnd 0) (length users) = Some index"
      using True by (simp add: rand_IntN_def index_def)
    have lt: "index < length users"
      using True by (simp add: index_def)
    from "1.IH" [OF _ _ r lt] True r lt show ?thesis
      by (simp add: select_loop.simps [of rnd i wc users winners])
  qed
qed

lemma select_loop_length:
  "select_loop rnd i wc users winners = Some ws \<Longrightarrow>
   length ws = length winners + min (nat (wc - i)) (length users)"
proof (induction rnd i wc users winners arbitrary: ws rule: select_loop.induct)
  case (1 rnd i wc users winners)
  show ?case
  proof (cases "i < wc \<and> length users \<noteq> 0")
    case False
    with "1.prems" show ?thesis
      by (auto simp: select_loop.simps [of rnd i wc users winners] split: if_splits)
  next
    case True
    define index where "index = rnd 0 mod length users"
    have r: "rand_IntN (rnd 0) (length users) = Some index"
      using True by (simp add: rand_IntN_def index_def)
    have lt: "index < length users"
      using True by (simp add: index_def)
    have rec: "select_loop (\<lambda>k. rnd (Suc k)) (i + 1) wc
                 (take index users @ drop (index + 1) users) (winners @ [users ! index]) = Some ws"
      using "1.prems" True r lt by (simp add: select_loop.simps [of rnd i wc users winners])
    have "length ws = length (winners @ [users ! index]) +
            min (nat (wc - (i + 1))) (length (take index users @ drop (index + 1) users))"
      using "1.IH" [OF _ _ r lt rec] True by simp
    also have "\<dots> = length winners + min (nat (wc - i)) (length users)"
    proof -
      have "nat (wc - i) = Suc (nat (wc - (i + 1)))"
        using True by linarith
      moreover have "length users = Suc (length users - 1)"
        using lt by simp
      moreover have "length (take index users @ drop (index + 1) users) = length users - 1"
        using lt by simp
      ultimately show ?thesis
        by (metis add_Suc_right length_append_singleton min_Suc_Suc add_Suc)
    qed
    finally show ?thesis .
  qed
qed

lemma select_loop_set:
  "select_loop rnd i wc users winners = Some ws \<Longrightarrow> set ws \<subseteq> set winners \<union> set users"
proof (induction rnd i wc users winners arbitrary: ws rule: select_loop.induct)
  case (1 rnd i wc users winners)
  show ?case
  proof (cases "i < wc \<and> length users \<noteq> 0")
    case False
    with "1.prems" show ?thesis
      by (auto simp: select_loop.simps [of rnd i wc users winners] split: if_splits)
  next
    case True
    define index where "index = rnd 0 mod length users"
    have r: "rand_IntN (rnd 0) (length users) = Some index"
      using True by (simp add: rand_IntN_def index_def)
    have lt: "index < length users"
      using True by (simp add: index_def)
    have rec: "select_loop (\<lambda>k. rnd (Suc k)) (i + 1) wc
                 (take index users @ drop (index + 1) users) (winners @ [users ! index]) = Some ws"
      using "1.prems" True r lt by (simp add: select_loop.simps [of rnd i wc users winners])
    have "set ws \<subseteq> set (winners @ [users ! index]) \<union>
            set (take index users @ drop (index + 1) users)"
      using "1.IH" [OF _ _ r lt rec] True by simp
    moreover have "set (take index users) \<subseteq> set users" "set (drop (index + 1) users) \<subseteq> set users"
      by (rule set_take_subset, rule set_drop_subset)
    moreover have "users ! index \<in> set users"
      using lt by simp
    ultimately show ?thesis by auto
  qed
qed

subsection \<open>The draw as a whole\<close>

lemma length_expand_users:
  "length (expand_users roster) = length roster + sum_list (map (\<lambda>u. copies (N u)) roster)"
  by (simp add: expand_users_eq length_concat comp_def)

lemma handleGetWinners_length:
  "\<exists>ws. handleGetWinners rnd roster count = Some ws \<and>
        length ws = min (nat count) (length (expand_users roster))"
proof -
  define users where "users = expand_users roster"
  obtain ws where ws: "select_loop rnd 0 (winnersCount count users) users [] = Some ws"
    using select_loop_returns by blast
  have "length ws = min (nat (winnersCount count users)) (length users)"
    using select_loop_length [OF ws] by simp
  also have "\<dots> = min (nat count) (length users)"
  proof (cases "int (length users) < count")
    case True
    then have "length users \<le> nat count" by linarith
    with True show ?thesis by (simp add: winnersCount_def)
  next
    case False
    then show ?thesis by (simp add: winnersCount_def)
  qed
  finally show ?thesis
    using ws by (simp add: handleGetWinners_def users_def)
qed

lemma handleGetWinners_set:
  "handleGetWinners rnd roster count = Some ws \<Longrightarrow> set ws \<subseteq> set roster"
  using select_loop_set [of rnd 0 _ "expand_users roster" "[]" ws]
  by (simp add: handleGetWinners_def Let_def set_expand_users)

text \<open>
  Claim C8. The draw never faults: for every roster, every count and every outcome of the
  random source it returns a winners sequence; with count 0 that sequence is empty, for
  every roster; with an empty roster it is empty, for every count.
\<close>

theorem handleGetWinners_never_faults:
  "(\<exists>ws. handleGetWinners rnd roster count = Some ws) \<and>
   handleGetWinners rnd roster 0 = Some [] \<and>
   handleGetWinners rnd [] count = Some []"
proof (intro conjI)
  show "\<exists>ws. handleGetWinners rnd roster count = Some ws"
    using handleGetWinners_length [of rnd roster count] by blast
  show "handleGetWinners rnd roster 0 = Some []"
    using handleGetWinners_length [of rnd roster 0] by auto
  show "handleGetWinners rnd [] count = Some []"
    using handleGetWinners_length [of rnd "[]" count] by (auto simp: expand_users_Nil)
qed

text \<open>
  Claim C10. For every roster and every negative count the draw returns the empty winners
  sequence: the clamp leaves winnersCount negative and the loop does not run.
\<close>

theorem handleGetWinners_negative_count:
  "count < 0 \<Longrightarrow> handleGetWinners rnd roster count = Some []"
  using handleGetWinners_length [of rnd roster count] by auto

theorem handleGetWinners_negative_count_witness:
  "(-3 :: int) < 0 \<and> handleGetWinners (\<lambda>k. k) [registrant_A, registrant_B] (-3) = Some []"
  using handleGetWinners_negative_count [of "-3" "\<lambda>k. k" "[registrant_A, registrant_B]"]
  by simp

lemma copies_B: "copies (N registrant_B) = 2" "copies (N registrant_A) = 0"
  by (simp_all add: copies_def registrant_B_def registrant_A_def)

text \<open>
  Claim C1 says that no registrant appears twice among the winners of one draw. The code
  cuts only the drawn slot out of the pool (line 671, under the comment "Remove the
  selected user from the pool"), so the other slots of a registrant of weight 3 stay in it:
  on the roster of B alone and count 2, every outcome of the random source returns B twice.
\<close>

theorem handleGetWinners_double_win:
  "handleGetWinners rnd [registrant_B] 2 = Some [registrant_B, registrant_B]"
proof -
  obtain ws where ws: "handleGetWinners rnd [registrant_B] 2 = Some ws"
    and len: "length ws = min (nat 2) (length (expand_users [registrant_B]))"
    using handleGetWinners_length [of rnd "[registrant_B]" 2] by blast
  have "length ws = 2"
    using len by (simp add: length_expand_users copies_B)
  moreover have "set ws \<subseteq> {registrant_B}"
    using handleGetWinners_set [OF ws] by simp
  ultimately have "ws = [registrant_B, registrant_B]"
    by (cases ws; cases "tl ws") auto
  with ws show ?thesis by simp
qed

text \<open>
  Claim C3 says that the number of winners is the smaller of count and the number of
  distinct registrants. The code clamps count by the length of the expanded pool (lines 654
  to 657): on the roster of A and B, two registrants, and count 5, every outcome of the
  random source returns four winners, so some registrant more than once.
\<close>

theorem handleGetWinners_more_than_distinct:
  "\<exists>ws. handleGetWinners rnd [registrant_A, registrant_B] 5 = Some ws \<and> length ws = 4 \<and>
        card (set [registrant_A, registrant_B]) = 2 \<and> \<not> distinct ws"
proof -
  obtain ws where ws: "handleGetWinners rnd [registrant_A, registrant_B] 5 = Some ws"
    and len: "length ws = min (nat 5) (length (expand_users [registrant_A, registrant_B]))"
    using handleGetWinners_length [of rnd "[registrant_A, registrant_B]" 5] by blast
  have l4: "length ws = 4"
    using len by (simp add: length_expand_users copies_B)
  have ne: "registrant_A \<noteq> registrant_B"
    by (simp add: registrant_A_def registrant_B_def)
  have sub: "set ws \<subseteq> {registrant_A, registrant_B}"
    using handleGetWinners_set [OF ws] by simp
  have "card (set ws) \<le> card {registrant_A, registrant_B}"
    by (rule card_mono) (use sub in auto)
  then have "card (set ws) \<le> 2" using ne by simp
  then have "\<not> distinct ws"
    using l4 distinct_card [of ws] by auto
  with ws l4 ne show ?thesis by simp
qed

lemma select_loop_distinct:
  "select_loop rnd i wc users winners = Some ws \<Longrightarrow> distinct (winners @ users) \<Longrightarrow>
   distinct ws"
proof (induction rnd i wc users winners arbitrary: ws rule: select_loop.induct)
  case (1 rnd i wc users winners)
  show ?case
  proof (cases "i < wc \<and> length users \<noteq> 0")
    case False
    with "1.prems" show ?thesis
      by (auto simp: select_loop.simps [of rnd i wc users winners] split: if_splits)
  next
    case True
    define index where "index = rnd 0 mod length users"
    have r: "rand_IntN (rnd 0) (length users) = Some index"
      using True by (simp add: rand_IntN_def index_def)
    have lt: "index < length users"
      using True by (simp add: index_def)
    have rec: "select_loop (\<lambda>k. rnd (Suc k)) (i + 1) wc
                 (take index users @ drop (index + 1) users) (winners @ [users ! index]) = Some ws"
      using "1.prems"(1) True r lt by (simp add: select_loop.simps [of rnd i wc users winners])
    have split: "users = take index users @ users ! index # drop (Suc index) users"
      using lt by (rule id_take_nth_drop)
    have "distinct (winners @ take index users @ users ! index # drop (Suc index) users)"
      using "1.prems"(2) split by simp
    then have "distinct ((winners @ [users ! index]) @ take index users @ drop (index + 1) users)"
      by auto
    with "1.IH" [OF _ _ r lt rec] True show ?thesis by simp
  qed
qed

text \<open>
  Where no weight exceeds 1 the pool is the roster itself, and the draw returns distinct
  registrants, as many as the smaller of count and the size of the roster.
\<close>

lemma handleGetWinners_unweighted:
  assumes "\<forall>u \<in> set roster. sint (N u) \<le> 1" and "distinct roster"
  shows "\<exists>ws. handleGetWinners rnd roster count = Some ws \<and> distinct ws \<and>
              length ws = min (nat count) (length roster)"
proof -
  have "map (\<lambda>u. replicate (copies (N u)) u) roster = map (\<lambda>u. []) roster"
    using assms(1) by (intro map_cong) (auto simp: copies_def)
  then have e: "expand_users roster = roster"
    by (simp add: expand_users_eq)
  obtain ws where ws: "handleGetWinners rnd roster count = Some ws"
    and len: "length ws = min (nat count) (length (expand_users roster))"
    using handleGetWinners_length [of rnd roster count] by blast
  have "distinct ws"
    using ws assms(2) select_loop_distinct [of rnd 0 _ roster "[]" ws]
    by (simp add: handleGetWinners_def Let_def e)
  with ws len e show ?thesis by simp
qed

section \<open>Properties of the registration bot\<close>

subsection \<open>One update at a time\<close>

lemma getState_key: "getState env s (Chat_ID m) = stage_of s (key_of env m)"
  by (simp add: getState_def key_of_def)

lemma processUpdate_nil: "processUpdate env \<lparr>Message = None\<rparr> s = s"
  by (simp add: processUpdate_def Let_def)

lemma processUpdate_Started:
  "getState env s (Chat_ID m) = Started \<Longrightarrow>
   processUpdate env \<lparr>Message = Some m\<rparr> s =
     Send (NewMessage (Chat_ID m) (welcomeMessage s)) (setState env (Chat_ID m) WaitingForName s)"
  by (simp add: processUpdate_def Let_def)

lemma processUpdate_restart:
  "getState env s (Chat_ID m) = WaitingForName \<Longrightarrow> Message.Text m = ''/start'' \<Longrightarrow>
   processUpdate env \<lparr>Message = Some m\<rparr> s = Send (NewMessage (Chat_ID m) msg_waiting) s"
  by (simp add: processUpdate_def Let_def)

lemma processUpdate_failure:
  "getState env s (Chat_ID m) = WaitingForName \<Longrightarrow> Message.Text m \<noteq> ''/start'' \<Longrightarrow>
   CreateUser env (params_of env m) = Some err \<Longrightarrow>
   processUpdate env \<lparr>Message = Some m\<rparr> s =
     Send (NewMessage (Chat_ID m) (if err = REGISTERED_ERROR then msg_registered else msg_error))
       (setState env (Chat_ID m) Done (issue (params_of env m) s))"
  by (simp add: processUpdate_def Let_def)

lemma processUpdate_success:
  "getState env s (Chat_ID m) = WaitingForName \<Longrightarrow> Message.Text m \<noteq> ''/start'' \<Longrightarrow>
   CreateUser env (params_of env m) = None \<Longrightarrow>
   processUpdate env \<lparr>Message = Some m\<rparr> s =
     Send (NewMessage (Chat_ID m) msg_thanks)
       (setState env (Chat_ID m) Done (setState env (Chat_ID m) Done (issue (params_of env m) s)))"
  by (simp add: processUpdate_def Let_def)

lemma processUpdate_Done:
  "getState env s (Chat_ID m) = Done \<Longrightarrow>
   processUpdate env \<lparr>Message = Some m\<rparr> s = Send (NewMessage (Chat_ID m) msg_registered) s"
  by (simp add: processUpdate_def Let_def)

lemma Send_fields [simp]:
  "bot (Send msg s) = bot s @ [msg]" "state (Send msg s) = state s"
  "queries (Send msg s) = queries s" "welcomeMessage (Send msg s) = welcomeMessage s"
  by (simp_all add: Send_def)

lemma issue_fields [simp]:
  "bot (issue p s) = bot s" "state (issue p s) = state s"
  "queries (issue p s) = queries s @ [p]" "welcomeMessage (issue p s) = welcomeMessage s"
  by (simp_all add: issue_def)

lemma setState_fields [simp]:
  "bot (setState env c st s) = bot s"
  "state (setState env c st s) =
     (state s)(\<lparr>StateKey.ChatID = c, StateKey.EventID = GetCurrentEventID env\<rparr> \<mapsto> st)"
  "queries (setState env c st s) = queries s"
  "welcomeMessage (setState env c st s) = welcomeMessage s"
  by (simp_all add: setState_def)

lemma stage_of_Send [simp]: "stage_of (Send msg s) k = stage_of s k"
  by (simp add: stage_of_def)

lemma stage_of_issue [simp]: "stage_of (issue p s) k = stage_of s k"
  by (simp add: stage_of_def)

lemma stage_of_setState:
  "stage_of (setState env c st s) k =
     (if k = \<lparr>StateKey.ChatID = c, StateKey.EventID = GetCurrentEventID env\<rparr> then st
      else stage_of s k)"
  by (simp add: stage_of_def)

lemma getState_Send [simp]: "getState env (Send msg s) c = getState env s c"
  by (simp add: getState_def)

lemma getState_setState_same [simp]:
  "GetCurrentEventID env' = GetCurrentEventID env \<Longrightarrow>
   getState env' (setState env c st s) c = st"
  by (simp add: getState_def stage_of_setState)


lemma msg_distinct:
  "msg_error \<noteq> msg_registered" "msg_thanks \<noteq> msg_registered" "msg_waiting \<noteq> msg_registered"
  "''driver: bad connection'' \<noteq> REGISTERED_ERROR"
  by (simp_all add: msg_error_def msg_registered_def msg_thanks_def msg_waiting_def
        REGISTERED_ERROR_def)

text \<open>
  Claim C7. In stage WaitingForName, a message whose text is the restart command "/start"
  is answered with the "already waiting for your name" message, leaves the stage map as it
  is, so the key stays at WaitingForName, and issues no CreateUser call.
\<close>

theorem restart_keeps_WaitingForName:
  assumes "getState env s (Chat_ID m) = WaitingForName" and "Message.Text m = ''/start''"
  shows "bot (processUpdate env \<lparr>Message = Some m\<rparr> s) = bot s @ [NewMessage (Chat_ID m) msg_waiting] \<and>
         state (processUpdate env \<lparr>Message = Some m\<rparr> s) = state s \<and>
         getState env (processUpdate env \<lparr>Message = Some m\<rparr> s) (Chat_ID m) = WaitingForName \<and>
         queries (processUpdate env \<lparr>Message = Some m\<rparr> s) = queries s"
  using assms by (simp add: processUpdate_restart)

lemma svc_waiting_eq:
  "svc_waiting =
     \<lparr>welcomeMessage = welcomeText ''Quiz'',
      state = [\<lparr>StateKey.ChatID = 7, StateKey.EventID = 1\<rparr> \<mapsto> WaitingForName],
      bot = [NewMessage 7 (welcomeText ''Quiz'')], queries = []\<rparr>"
  by (simp add: svc_waiting_def processUpdate_def upd_def Start_def getState_def stage_of_def
        msg_start_def env_ok_def event0_def Let_def setState_def Send_def)

lemma getState_svc_waiting:
  "getState env_ok svc_waiting 7 = WaitingForName"
  "getState env_dup svc_waiting 7 = WaitingForName"
  "getState env_down svc_waiting 7 = WaitingForName"
  by (simp_all add: svc_waiting_eq getState_def stage_of_def env_ok_def env_dup_def env_down_def)

text \<open>
  The restart command sent by a chat that has just been welcomed.
\<close>

theorem restart_keeps_WaitingForName_witness:
  "bot (processUpdate env_ok \<lparr>Message = Some msg_start\<rparr> svc_waiting) =
     bot svc_waiting @ [NewMessage 7 msg_waiting] \<and>
   state (processUpdate env_ok \<lparr>Message = Some msg_start\<rparr> svc_waiting) = state svc_waiting \<and>
   getState env_ok (processUpdate env_ok \<lparr>Message = Some msg_start\<rparr> svc_waiting) 7 = WaitingForName \<and>
   queries (processUpdate env_ok \<lparr>Message = Some msg_start\<rparr> svc_waiting) = queries svc_waiting"
  using restart_keeps_WaitingForName [of env_ok svc_waiting msg_start]
  by (simp add: getState_svc_waiting msg_start_def)

text \<open>
  Claim C2 says that a store failure other than the duplicate-key conflict leaves the stage at
  WaitingForName, so that the next message retries the write. The code replies with the
  retry message ("try once more") and then runs the stage write of line 118, which stands
  after the whole if statement: the stage becomes Done. Evaluated on a chat waiting for its
  name and a store that answers "driver: bad connection": the reply is the retry message,
  the stage is Done, and the next message is answered "already registered" without a
  CreateUser call.
\<close>

theorem other_failure_sets_Done:
  "getState env_down svc_waiting 7 = WaitingForName \<and>
   CreateUser env_down (params_of env_down msg_name) = Some ''driver: bad connection'' \<and>
   ''driver: bad connection'' \<noteq> REGISTERED_ERROR \<and>
   bot (processUpdate env_down (upd msg_name) svc_waiting) =
     bot svc_waiting @ [NewMessage 7 msg_error] \<and>
   getState env_down (processUpdate env_down (upd msg_name) svc_waiting) 7 = Done \<and>
   bot (processUpdate env_ok (upd msg_name) (processUpdate env_down (upd msg_name) svc_waiting)) =
     bot svc_waiting @ [NewMessage 7 msg_error, NewMessage 7 msg_registered] \<and>
   queries (processUpdate env_ok (upd msg_name) (processUpdate env_down (upd msg_name) svc_waiting)) =
     queries (processUpdate env_down (upd msg_name) svc_waiting)"
proof -
  have c: "Chat_ID msg_name = 7" and t: "Message.Text msg_name \<noteq> ''/start''"
    by (simp_all add: msg_name_def)
  have w: "getState env_down svc_waiting (Chat_ID msg_name) = WaitingForName"
    by (simp add: c getState_svc_waiting)
  have e: "CreateUser env_down (params_of env_down msg_name) = Some ''driver: bad connection''"
    by (simp add: env_down_def)
  define s2 where "s2 = processUpdate env_down (upd msg_name) svc_waiting"
  have s2: "s2 = Send (NewMessage 7 msg_error)
                   (setState env_down 7 Done (issue (params_of env_down msg_name) svc_waiting))"
    using processUpdate_failure [OF w t e] by (simp add: s2_def upd_def c msg_distinct)
  have d: "getState env_ok s2 (Chat_ID msg_name) = Done"
    by (simp add: s2 c env_ok_def env_down_def)
  have s3: "processUpdate env_ok (upd msg_name) s2 = Send (NewMessage 7 msg_registered) s2"
    using processUpdate_Done [OF d] by (simp add: upd_def c)
  show ?thesis
    unfolding s2_def [symmetric] s3
    by (simp add: getState_svc_waiting e msg_distinct) (simp add: s2)
qed



lemma processUpdate_stage_mono:
  "State_int64 (stage_of s k) \<le> State_int64 (stage_of (processUpdate env u s) k)"
proof (cases "Message u")
  case None
  then show ?thesis by (simp add: processUpdate_def)
next
  case (Some m)
  then have u: "u = \<lparr>Message = Some m\<rparr>" by (cases u) simp
  show ?thesis
  proof (cases "getState env s (Chat_ID m)")
    case Started
    then have "stage_of s (key_of env m) = Started" by (simp add: getState_key)
    then show ?thesis
      using processUpdate_Started [OF Started]
      by (auto simp: u stage_of_setState key_of_def)
  next
    case WaitingForName
    then have w: "stage_of s (key_of env m) = WaitingForName" by (simp add: getState_key)
    show ?thesis
    proof (cases "Message.Text m = ''/start''")
      case True
      then show ?thesis
        using processUpdate_restart [OF WaitingForName] by (simp add: u)
    next
      case False
      show ?thesis
      proof (cases "CreateUser env (params_of env m)")
        case None
        then show ?thesis
          using processUpdate_success [OF WaitingForName False] w
          by (auto simp: u stage_of_setState key_of_def)
      next
        case (Some err)
        then show ?thesis
          using processUpdate_failure [OF WaitingForName False] w
          by (auto simp: u stage_of_setState key_of_def)
      qed
    qed
  next
    case Done
    then show ?thesis
      using processUpdate_Done [OF Done] by (simp add: u)
  qed
qed

lemma process_in_turn_stage_mono:
  "State_int64 (stage_of s k) \<le> State_int64 (stage_of (process_in_turn us s) k)"
proof (induction us arbitrary: s)
  case Nil
  show ?case by simp
next
  case (Cons eu us)
  obtain env u where eu: "eu = (env, u)" by (cases eu)
  have "State_int64 (stage_of s k) \<le> State_int64 (stage_of (processUpdate env u s) k)"
    by (rule processUpdate_stage_mono)
  also have "\<dots> \<le> State_int64 (stage_of (process_in_turn us (processUpdate env u s)) k)"
    by (rule Cons.IH)
  finally show ?case by (simp add: eu)
qed

lemma State_int64_Done: "3 \<le> State_int64 st \<Longrightarrow> st = Done"
  by (cases st) simp_all

text \<open>
  Claim C6, as the code has it. When the calls run one at a time, each to its end before
  the next begins and each reading the active event once: no call, and no sequence of
  calls, lowers the stage of any key in the order Started < WaitingForName < Done given by
  the values of the constants, and a key that is Done stays Done. For goroutines that
  overlap the claim fails, as shown among the interleaved goroutines below.
\<close>

theorem stage_never_moves_back:
  "State_int64 (stage_of s k) \<le> State_int64 (stage_of (processUpdate env u s) k) \<and>
   State_int64 (stage_of s k) \<le> State_int64 (stage_of (process_in_turn us s) k) \<and>
   (stage_of s k = Done \<longrightarrow>
      stage_of (processUpdate env u s) k = Done \<and> stage_of (process_in_turn us s) k = Done)"
proof (intro conjI impI)
  show "State_int64 (stage_of s k) \<le> State_int64 (stage_of (processUpdate env u s) k)"
    by (rule processUpdate_stage_mono)
  show "State_int64 (stage_of s k) \<le> State_int64 (stage_of (process_in_turn us s) k)"
    by (rule process_in_turn_stage_mono)
  assume d: "stage_of s k = Done"
  show "stage_of (processUpdate env u s) k = Done"
    using processUpdate_stage_mono [of s k env u] d by (simp add: State_int64_Done)
  show "stage_of (process_in_turn us s) k = Done"
    using process_in_turn_stage_mono [of s k us] d by (simp add: State_int64_Done)
qed

lemma svc_done_eq:
  "svc_done =
     \<lparr>welcomeMessage = welcomeText ''Quiz'',
      state = [key7 \<mapsto> Done],
      bot = [NewMessage 7 (welcomeText ''Quiz''), NewMessage 7 msg_thanks],
      queries = [params_of env_ok msg_name]\<rparr>"
  by (simp add: svc_done_def svc_waiting_eq processUpdate_def upd_def getState_def stage_of_def
        msg_name_def env_ok_def Let_def setState_def Send_def issue_def key7_def)

text \<open>
  A registered chat keeps the stage Done whatever it sends and whatever the store answers.
\<close>

theorem stage_never_moves_back_witness:
  "stage_of svc_done key7 = Done \<and>
   stage_of (processUpdate env_down (upd msg_start) svc_done) key7 = Done \<and>
   stage_of (process_in_turn [(env_ok, upd msg_start), (env_down, upd msg_name)] svc_done) key7 =
     Done"
proof -
  have d: "stage_of svc_done key7 = Done"
    by (simp add: svc_done_eq stage_of_def)
  from stage_never_moves_back
    [of svc_done key7 env_down "upd msg_start" "[(env_ok, upd msg_start), (env_down, upd msg_name)]"]
  show ?thesis using d by simp
qed






subsection \<open>Interleaved goroutines\<close>

text \<open>One goroutine alone, run to its end, does what processUpdate does.\<close>

lemma interleave_alone:
  "interleave env [0, 0, 0, 0, 0] ([At_entry u], s) = ([Returned], processUpdate env u s)"
proof (cases "Message u")
  case None
  then show ?thesis by (simp add: processUpdate_def)
next
  case (Some m)
  then have u: "u = \<lparr>Message = Some m\<rparr>" by (cases u) simp
  show ?thesis
  proof (cases "getState env s (Chat_ID m)")
    case Started
    then show ?thesis
      using processUpdate_Started [OF Started] by (simp add: u)
  next
    case WaitingForName
    show ?thesis
    proof (cases "Message.Text m = ''/start''")
      case True
      then show ?thesis
        using processUpdate_restart [OF WaitingForName] WaitingForName by (simp add: u)
    next
      case False
      show ?thesis
      proof (cases "CreateUser env (params_of env m)")
        case None
        then show ?thesis
          using processUpdate_success [OF WaitingForName False] WaitingForName False
          by (simp add: u)
      next
        case (Some err)
        then show ?thesis
          using processUpdate_failure [OF WaitingForName False] WaitingForName False
          by (simp add: u)
      qed
    qed
  next
    case Done
    then show ?thesis
      using processUpdate_Done [OF Done] by (simp add: u)
  qed
qed

text \<open>
  Claim C9 says that no interleaving of two concurrent calls on one key lets both observe
  Started and both move forward. The read of the stage and the write of the stage are two
  critical sections, and the mutex is free between them: with two updates of chat 7 on a
  fresh service, the schedule 0, 1 lets both goroutines observe Started, and the schedule
  0, 1, 0, 1 then lets both send the welcome prompt and both write WaitingForName.
\<close>

theorem both_observe_Started:
  "interleave env_ok [0, 1] ([At_entry (upd msg_start), At_entry (upd msg_name)], Start event0) =
     ([At_switch msg_start Started, At_switch msg_name Started], Start event0) \<and>
   interleave env_ok [0, 1, 0, 1]
     ([At_switch msg_start Started, At_switch msg_name Started], Start event0) =
     ([Returned, Returned],
      \<lparr>welcomeMessage = welcomeText ''Quiz'', state = [key7 \<mapsto> WaitingForName],
       bot = [NewMessage 7 (welcomeText ''Quiz''), NewMessage 7 (welcomeText ''Quiz'')],
       queries = []\<rparr>)"
  by (simp add: upd_def getState_def stage_of_def Start_def msg_start_def msg_name_def
        env_ok_def event0_def setState_def Send_def key7_def)

lemma list_all_update:
  "list_all P ts \<Longrightarrow> P t \<Longrightarrow> list_all P (ts[i := t])"
  by (auto simp: list_all_iff dest: set_update_subset_insert [THEN subsetD])

lemma filter_length_update:
  "i < length ts \<Longrightarrow>
   length (filter P (ts[i := t])) + (if P (ts ! i) then 1 else 0) =
   length (filter P ts) + (if P t then 1 else 0)"
proof (induction ts arbitrary: i)
  case Nil
  then show ?case by simp
next
  case (Cons a ts)
  then show ?case by (cases i) auto
qed

lemma not_all_before_write_update:
  "i < length ts \<Longrightarrow> \<not> before_write t \<Longrightarrow> \<not> list_all before_write (ts[i := t])"
  by (auto simp: list_all_iff dest: set_update_memI)

lemma not_all_before_write_keep:
  "i < length ts \<Longrightarrow> \<not> before_write (ts ! i) \<Longrightarrow> \<not> list_all before_write ts"
  by (auto simp: list_all_iff)

lemma race_inv_step:
  assumes inv: "race_inv env c s0 (ts, s)" and i: "i < length ts"
    and step: "thread_step env (ts ! i) s = (t', s')"
  shows "race_inv env c s0 (ts[i := t'], s')"
proof -
  let ?w = "welcomeMessage s0"
  let ?key = "\<lparr>StateKey.ChatID = c, StateKey.EventID = GetCurrentEventID env\<rparr>"
  from inv have all: "list_all (observed_Started c ?w) ts"
    and w: "welcomeMessage s = ?w" and q: "queries s = queries s0"
    and st: "state s = (if list_all before_write ts then state s0
                    else (state s0)(?key \<mapsto> WaitingForName))"
    and b: "bot s = bot s0 @ replicate (length (filter (\<lambda>t. t = Returned) ts)) (NewMessage c ?w)"
    by (simp_all add: race_inv_def Let_def)
  from all i have ok: "observed_Started c ?w (ts ! i)"
    by (simp add: list_all_length)
  show ?thesis
  proof (cases "ts ! i")
    case (At_switch m st')
    with ok have m: "Chat_ID m = c" and st': "st' = Started" by simp_all
    from step At_switch st' w m have t': "t' = At_send m ?w"
      and s': "s' = setState env c WaitingForName s" by auto
    have cnt: "length (filter (\<lambda>t. t = Returned) (ts[i := t'])) =
               length (filter (\<lambda>t. t = Returned) ts)"
      using filter_length_update [OF i, of "\<lambda>t. t = Returned" t'] At_switch t' by simp
    have nb: "\<not> list_all before_write (ts[i := t'])"
      using not_all_before_write_update [OF i, of t'] t' by simp
    have "state s' = (state s0)(?key \<mapsto> WaitingForName)"
      using st by (simp add: s')
    moreover have "list_all (observed_Started c ?w) (ts[i := t'])"
      using all by (rule list_all_update) (simp add: t' m)
    ultimately show ?thesis
      using w q b cnt nb by (simp add: race_inv_def Let_def s')
  next
    case (At_send m reply)
    with ok have m: "Chat_ID m = c" and reply: "reply = ?w" by simp_all
    from step At_send reply m have t': "t' = Returned"
      and s': "s' = Send (NewMessage c ?w) s" by auto
    have cnt: "length (filter (\<lambda>t. t = Returned) (ts[i := t'])) =
               Suc (length (filter (\<lambda>t. t = Returned) ts))"
      using filter_length_update [OF i, of "\<lambda>t. t = Returned" t'] At_send t' by simp
    have nb: "\<not> list_all before_write (ts[i := t'])"
      using not_all_before_write_update [OF i, of t'] t' by simp
    have nb0: "\<not> list_all before_write ts"
      using not_all_before_write_keep [OF i] At_send by simp
    have "list_all (observed_Started c ?w) (ts[i := t'])"
      using all by (rule list_all_update) (simp add: t')
    then show ?thesis
      using w q b st cnt nb nb0 by (simp add: race_inv_def Let_def s' replicate_app_Cons_same)
  next
    case Returned
    with step have "t' = Returned" "s' = s" by auto
    moreover have "ts[i := Returned] = ts"
      using Returned i by (metis list_update_id)
    ultimately show ?thesis using inv by simp
  next
    case (At_entry u)
    with ok show ?thesis by simp
  next
    case (At_created m r)
    with ok show ?thesis by simp
  next
    case (At_line118 m reply)
    with ok show ?thesis by simp
  qed
qed

lemma race_inv_interleave:
  "race_inv env c s0 cfg \<Longrightarrow> race_inv env c s0 (interleave env sched cfg)"
proof (induction sched arbitrary: cfg)
  case Nil
  then show ?case by simp
next
  case (Cons i sched)
  obtain ts s where cfg: "cfg = (ts, s)" by (cases cfg)
  show ?case
  proof (cases "i < length ts")
    case False
    with Cons show ?thesis by (simp add: cfg)
  next
    case True
    obtain t' s' where step: "thread_step env (ts ! i) s = (t', s')"
      by (cases "thread_step env (ts ! i) s")
    have "race_inv env c s0 (ts[i := t'], s')"
      using Cons.prems True step unfolding cfg by (rule race_inv_step)
    then have "race_inv env c s0 (interleave env sched (ts[i := t'], s'))"
      by (rule Cons.IH)
    then show ?thesis using True step by (simp add: cfg)
  qed
qed

lemma interleave_length:
  "length (fst (interleave env sched (ts, s))) = length ts"
proof (induction sched arbitrary: ts s)
  case Nil
  show ?case by simp
next
  case (Cons i sched)
  then show ?case by (simp add: split_beta Let_def)
qed

text \<open>
  Claim C9, as the code has it. Each stage read and each stage write is one atomic step
  under the mutex of the service, but the read and the following write of one update are
  not one step. When the concurrent calls on one key have all observed Started, then under
  every interleaving of the rest of their steps no store write is attempted, the stages of
  the other keys are untouched, the stage of the key is what it was or WaitingForName, and
  once all calls have returned the stage is WaitingForName and each call has sent the
  welcome prompt.
\<close>

theorem racing_on_Started_only_repeats_welcome:
  assumes "\<forall>m \<in> set ms. Chat_ID m = c"
  shows "(let key = \<lparr>StateKey.ChatID = c, StateKey.EventID = GetCurrentEventID env\<rparr>;
              cfg = interleave env sched (map (\<lambda>m. At_switch m Started) ms, s);
              ts' = fst cfg; s' = snd cfg
          in queries s' = queries s \<and>
             (\<forall>k. k \<noteq> key \<longrightarrow> state s' k = state s k) \<and>
             (state s' key = state s key \<or> state s' key = Some WaitingForName) \<and>
             (ms \<noteq> [] \<and> list_all (\<lambda>t. t = Returned) ts' \<longrightarrow>
                state s' key = Some WaitingForName \<and>
                bot s' = bot s @ replicate (length ms) (NewMessage c (welcomeMessage s))))"
proof -
  define key where "key = \<lparr>StateKey.ChatID = c, StateKey.EventID = GetCurrentEventID env\<rparr>"
  define ts where "ts = map (\<lambda>m. At_switch m Started) ms"
  define cfg where "cfg = interleave env sched (ts, s)"
  have a: "list_all (observed_Started c (welcomeMessage s)) ts"
    using assms by (simp add: ts_def list_all_iff)
  have bw: "list_all before_write ts"
    by (simp add: ts_def list_all_iff)
  have nr: "filter (\<lambda>t. t = Returned) ts = []"
    by (simp add: ts_def filter_empty_conv)
  have "race_inv env c s (ts, s)"
    using a bw nr by (simp add: race_inv_def Let_def)
  then have inv: "race_inv env c s cfg"
    unfolding cfg_def by (rule race_inv_interleave)
  have len: "length (fst cfg) = length ms"
    by (simp add: cfg_def interleave_length ts_def)
  from inv have q: "queries (snd cfg) = queries s"
    and st: "state (snd cfg) = (if list_all before_write (fst cfg) then state s
                    else (state s)(key \<mapsto> WaitingForName))"
    and b: "bot (snd cfg) = bot s @
           replicate (length (filter (\<lambda>t. t = Returned) (fst cfg))) (NewMessage c (welcomeMessage s))"
    by (simp_all add: race_inv_def Let_def key_def)
  have other: "\<forall>k. k \<noteq> key \<longrightarrow> state (snd cfg) k = state s k"
    by (simp add: st)
  have either: "state (snd cfg) key = state s key \<or> state (snd cfg) key = Some WaitingForName"
    by (simp add: st)
  have fin: "state (snd cfg) key = Some WaitingForName \<and>
             bot (snd cfg) = bot s @ replicate (length ms) (NewMessage c (welcomeMessage s))"
    if ne: "ms \<noteq> []" and r: "list_all (\<lambda>t. t = Returned) (fst cfg)"
  proof -
    from ne len obtain t rest where tr: "fst cfg = t # rest"
      by (cases "fst cfg") auto
    with r have "t = Returned" by simp
    with tr have "\<not> list_all before_write (fst cfg)" by simp
    moreover have "filter (\<lambda>t. t = Returned) (fst cfg) = fst cfg"
      using r by (simp add: list_all_iff)
    ultimately show ?thesis using st b len by simp
  qed
  show ?thesis
    unfolding Let_def key_def [symmetric] ts_def [symmetric] cfg_def [symmetric]
    using q other either fin by blast
qed

text \<open>
  Two updates of chat 7 that have both observed Started, under the schedule 1, 0, 0, 1.
\<close>

theorem racing_on_Started_only_repeats_welcome_witness:
  "(let cfg = interleave env_ok [1, 0, 0, 1] (map (\<lambda>m. At_switch m Started) [msg_start, msg_name],
                 Start event0);
        ts' = fst cfg; s' = snd cfg
    in ts' = [Returned, Returned] \<and> queries s' = [] \<and>
       state s' key7 = Some WaitingForName \<and>
       bot s' = [NewMessage 7 (welcomeText ''Quiz''), NewMessage 7 (welcomeText ''Quiz'')])"
proof -
  have 1: "\<forall>m \<in> set [msg_start, msg_name]. Chat_ID m = 7"
    by (simp add: msg_start_def msg_name_def)
  have r: "fst (interleave env_ok [1, 0, 0, 1]
             (map (\<lambda>m. At_switch m Started) [msg_start, msg_name], Start event0)) =
           [Returned, Returned]"
    by simp
  have e: "GetCurrentEventID env_ok = 1" by (simp add: env_ok_def)
  show ?thesis
    using racing_on_Started_only_repeats_welcome [OF 1, of env_ok "[1, 0, 0, 1]" "Start event0"]
    unfolding Let_def r e key7_def
    by (simp add: Start_def event0_def numeral_2_eq_2)
qed

text \<open>
  Claim C6 says that no call ever lowers the stage of a key and that Done is kept for
  ever. Every update runs in a goroutine of its own (line 79) and setState overwrites
  whatever is stored. With three updates of chat 7 in flight a late stage write moves the
  stage back: goroutine 0 observes Started and pauses; goroutine 1 writes WaitingForName
  and returns; goroutine 2 observes WaitingForName, registers the sender and writes Done;
  goroutine 0 then writes WaitingForName over Done.
\<close>

theorem late_write_moves_stage_back:
  "stage_of (snd (interleave env_ok [0, 1, 1, 1, 2, 2, 2, 2, 2]
       ([At_entry (upd msg_start), At_entry (upd msg_start), At_entry (upd msg_name)],
        Start event0))) key7 = Done \<and>
   stage_of (snd (interleave env_ok [0, 1, 1, 1, 2, 2, 2, 2, 2, 0]
       ([At_entry (upd msg_start), At_entry (upd msg_start), At_entry (upd msg_name)],
        Start event0))) key7 = WaitingForName"
  by (simp add: upd_def getState_def stage_of_def Start_def msg_start_def msg_name_def
        env_ok_def event0_def setState_def Send_def key7_def issue_def)

end
